theory Spec2Isabelle
  imports Main
begin

section \<open>The parsed document tree\<close>

text \<open>
  The validators of \<^verbatim>\<open>src/scripts/verify-mdx/validators.mjs\<close> read a unist/mdast tree.
  A node is a JavaScript object; the fields the validators read are \<^verbatim>\<open>type\<close>,
  \<^verbatim>\<open>name\<close>, \<^verbatim>\<open>children\<close>, \<^verbatim>\<open>attributes\<close> and \<^verbatim>\<open>position.start\<close>.
  A field that an object does not carry is \<^verbatim>\<open>undefined\<close> in JavaScript and \<open>None\<close> here.
  Reading a property of \<^verbatim>\<open>undefined\<close> throws a \<^verbatim>\<open>TypeError\<close>; every such read of the
  source is a branch \<open>Inl TypeError\<close> of the model. An exception leaves the validator,
  so the diagnostics pushed before it are lost with the local array.

  Attribute values are strings, as written in \<^verbatim>\<open>id="..."\<close>; \<^verbatim>\<open>Map\<close> and \<^verbatim>\<open>Set\<close>
  compare them by value. A \<^verbatim>\<open>position\<close>, when a node has one, has its \<^verbatim>\<open>start\<close> point, as
  unist requires. The runtime is one that has \<^verbatim>\<open>Set.prototype.difference\<close>, which line 129
  of the source calls.
\<close>

datatype js_error = TypeError

record point =
  line :: nat
  column :: nat
  offset :: nat

record position =
  start :: point

datatype attribute = Attribute (attr_name: string) (attr_value: string)

datatype node =
  Node (type: string) (name: "string option") (children: "node list option")
    (attributes: "attribute list option") (position: "position option")

text \<open>
  \<^verbatim>\<open>ERROR_TYPES\<close> is imported from \<^verbatim>\<open>error-types.mjs\<close>; its members are the ones the
  sources name. A diagnostic is the object literal
  \<^verbatim>\<open>{ ...nodeInfo, reason, type: ERROR_TYPES.VALIDATION_ERROR }\<close>: the spread copies the
  fields of the start point (\<open>nodeInfo = Some p\<close>), or nothing when \<^verbatim>\<open>nodeInfo\<close> is
  \<^verbatim>\<open>{}\<close> (\<open>nodeInfo = None\<close>). The field \<open>kind\<close> is the key \<^verbatim>\<open>type\<close> of the literal.
\<close>

datatype error_type = MDX_ERROR | FRONTMATTER_ERROR | FRONTMATTER_FIELD_ERROR | VALIDATION_ERROR

record diagnostic =
  nodeInfo :: "point option"
  reason :: string
  kind :: error_type

definition error_at :: "point option \<Rightarrow> string \<Rightarrow> diagnostic" where
  "error_at info r = \<lparr>nodeInfo = info, reason = r, kind = VALIDATION_ERROR\<rparr>"

section \<open>JavaScript building blocks\<close>

text \<open>Sequencing of two computations, the first of which may throw.\<close>

definition andThen :: "js_error + 'a \<Rightarrow> ('a \<Rightarrow> js_error + 'b) \<Rightarrow> js_error + 'b" where
  "andThen m f = (case m of Inl e \<Rightarrow> Inl e | Inr x \<Rightarrow> f x)"

text \<open>
  \<^verbatim>\<open>xs.forEach(f)\<close> where \<^verbatim>\<open>f\<close> updates the array \<^verbatim>\<open>errors\<close> of the enclosing
  closure: the array is passed through, and the first exception ends the loop.
\<close>

fun forEach :: "'a list \<Rightarrow> ('a \<Rightarrow> 's \<Rightarrow> js_error + 's) \<Rightarrow> 's \<Rightarrow> js_error + 's" where
  "forEach [] f s = Inr s"
| "forEach (x # xs) f s = (case f x s of Inl e \<Rightarrow> Inl e | Inr s' \<Rightarrow> forEach xs f s')"

text \<open>\<^verbatim>\<open>errors.push(d)\<close>, which never throws.\<close>

definition push :: "'a \<Rightarrow> 'a list \<Rightarrow> js_error + 'a list" where
  "push d errors = Inr (errors @ [d])"

text \<open>\<^verbatim>\<open>xs[0]\<close>: \<^verbatim>\<open>undefined\<close> on the empty array.\<close>

fun first :: "'a list \<Rightarrow> 'a option" where
  "first [] = None"
| "first (x # xs) = Some x"

text \<open>
  A \<^verbatim>\<open>Map\<close> keeps its entries in insertion order, and \<^verbatim>\<open>set\<close> on a key it already
  holds replaces the value in place. A \<^verbatim>\<open>Set\<close> keeps its elements in insertion order;
  \<^verbatim>\<open>a.difference(b)\<close> holds the elements of \<^verbatim>\<open>a\<close> that \<^verbatim>\<open>b\<close> lacks, in the
  order of \<^verbatim>\<open>a\<close>.
\<close>

fun map_set :: "('k \<times> 'v) list \<Rightarrow> 'k \<Rightarrow> 'v \<Rightarrow> ('k \<times> 'v) list" where
  "map_set [] k v = [(k, v)]"
| "map_set ((k', v') # m) k v = (if k' = k then (k, v) # m else (k', v') # map_set m k v)"

definition map_get :: "('k \<times> 'v) list \<Rightarrow> 'k \<Rightarrow> 'v option" where
  "map_get m k = map_of m k"

definition new_Map :: "('k \<times> 'v) list \<Rightarrow> ('k \<times> 'v) list" where
  "new_Map entries = foldl (\<lambda>m (k, v). map_set m k v) [] entries"

definition keys :: "('k \<times> 'v) list \<Rightarrow> 'k list" where
  "keys m = map fst m"

definition set_add :: "'a list \<Rightarrow> 'a \<Rightarrow> 'a list" where
  "set_add s x = (if x \<in> set s then s else s @ [x])"

definition new_Set :: "'a list \<Rightarrow> 'a list" where
  "new_Set xs = foldl set_add [] xs"

definition difference :: "'a list \<Rightarrow> 'a list \<Rightarrow> 'a list" where
  "difference a b = filter (\<lambda>x. x \<notin> set b) a"

text \<open>
  \<^verbatim>\<open>text.replace('\n', '')\<close>: with a string pattern, \<^verbatim>\<open>replace\<close> removes the first
  occurrence only.
\<close>

fun replace :: "string \<Rightarrow> char \<Rightarrow> string" where
  "replace [] c = []"
| "replace (x # xs) c = (if x = c then xs else x # replace xs c)"

text \<open>A template literal renders \<^verbatim>\<open>undefined\<close> by its name.\<close>

fun template :: "string option \<Rightarrow> string" where
  "template None = ''undefined''"
| "template (Some s) = s"

section \<open>The traversal\<close>

text \<open>
  \<^verbatim>\<open>visit(tree, test, visitor)\<close> of the library unist-util-visit: depth first, a node
  before its children, the children from left to right; the visitor is called on every
  node that passes the test. The visitors below return \<^verbatim>\<open>undefined\<close> or the array of
  diagnostics, neither of which stops or redirects the walk.
\<close>

fun visit :: "node \<Rightarrow> (node \<Rightarrow> bool) \<Rightarrow> (node \<Rightarrow> 's \<Rightarrow> js_error + 's) \<Rightarrow> 's \<Rightarrow> js_error + 's"
  and visit_all :: "node list \<Rightarrow> (node \<Rightarrow> bool) \<Rightarrow> (node \<Rightarrow> 's \<Rightarrow> js_error + 's) \<Rightarrow> 's \<Rightarrow> js_error + 's"
  where
  "visit (Node t n cs a p) test visitor s =
     (case (if test (Node t n cs a p) then visitor (Node t n cs a p) s else Inr s) of
        Inl e \<Rightarrow> Inl e
      | Inr s' \<Rightarrow> (case cs of None \<Rightarrow> Inr s' | Some cs' \<Rightarrow> visit_all cs' test visitor s'))"
| "visit_all [] test visitor s = Inr s"
| "visit_all (c # cs) test visitor s =
     (case visit c test visitor s of Inl e \<Rightarrow> Inl e | Inr s' \<Rightarrow> visit_all cs test visitor s')"

section \<open>nodeDescriptor\<close>

text \<open>
  \<^verbatim>\<open>getNodeText\<close> and \<^verbatim>\<open>isEmptyParagraph\<close> are imported from
  \<^verbatim>\<open>codemods/utils/mdxast.js\<close>; the validators are modelled for any two such functions,
  which are parameters of every definition that calls them.
\<close>

definition nodeDescriptor :: "(node \<Rightarrow> string) \<Rightarrow> node \<Rightarrow> string" where
  \<open>nodeDescriptor getNodeText node =
     (let isMdxElement = (type node = ''mdxBlockElement'') in
      if isMdxElement then ''<'' @ template (name node) @ ''>''
      else if type node = ''paragraph'' then
        (let text = replace (getNodeText node) (CHR 0x0A);
             truncated = take 30 text;
             truncated = (if length truncated \<noteq> length text then truncated @ ''...'' else truncated)
         in ''"'' @ truncated @ ''"'')
      else type node)\<close>

section \<open>validateSteps\<close>

definition stepsReason :: "(node \<Rightarrow> string) \<Rightarrow> node \<Rightarrow> string" where
  "stepsReason getNodeText child =
     ''<Steps> component must only contain <Step> components as immediate children but found ''
       @ nodeDescriptor getNodeText child"

definition stepsVisitor :: "(node \<Rightarrow> string) \<Rightarrow> node \<Rightarrow> diagnostic list \<Rightarrow> js_error + diagnostic list" where
  "stepsVisitor getNodeText node errors =
     (case children node of
        None \<Rightarrow> Inl TypeError
      | Some cs \<Rightarrow>
          (let nonStepChildren = filter (\<lambda>child. name child \<noteq> Some ''Step'') cs in
           forEach nonStepChildren
             (\<lambda>child errors.
                case position child of
                  None \<Rightarrow> Inl TypeError
                | Some p \<Rightarrow> push (error_at (Some (start p)) (stepsReason getNodeText child)) errors)
             errors))"

definition validateSteps :: "(node \<Rightarrow> string) \<Rightarrow> node \<Rightarrow> js_error + diagnostic list" where
  "validateSteps getNodeText mdxAST =
     visit mdxAST (\<lambda>node. name node = Some ''Steps'') (stepsVisitor getNodeText) []"

section \<open>validateTabs\<close>

definition tabsChildReason :: "(node \<Rightarrow> string) \<Rightarrow> node \<Rightarrow> string" where
  "tabsChildReason getNodeText child =
     ''<Tabs> component must only contain <TabsBar> and <TabsPages> components as immediate children but found ''
       @ nodeDescriptor getNodeText child"

definition noTabsBarReason :: string where
  "noTabsBarReason =
     ''No <TabsBar> found! <Tabs> component must contain <TabsBar> as an immediate child''"

definition noTabsPagesReason :: string where
  "noTabsPagesReason =
     ''No <TabsPages> found! <Tabs> component must contain <TabsPages> as an immediate child''"

definition missingPageItemReason :: "string \<Rightarrow> string" where
  \<open>missingPageItemReason id' =
     ''Found a <TabsBarItem> with id "'' @ id'
       @ ''" but no corresponding <TabsPageItem>. Tabs components must come in pairs.''\<close>

definition missingBarItemReason :: "string \<Rightarrow> string" where
  \<open>missingBarItemReason id' =
     ''Found a <TabsPageItem> with id "'' @ id'
       @ ''" but no corresponding <TabsBarItem>. Tabs components must come in pairs.''\<close>

definition dupeBarItemReason :: "string \<Rightarrow> string" where
  \<open>dupeBarItemReason id' =
     ''Found a <TabsBarItem> with a duplicate id "'' @ id'
       @ ''". <TabsBarItem>s must have unique ids.''\<close>

definition dupePageItemReason :: "string \<Rightarrow> string" where
  \<open>dupePageItemReason id' =
     ''Found a <TabsPageItem> with a duplicate id "'' @ id'
       @ ''". <TabsPageItem>s must have unique ids.''\<close>

text \<open>
  \<^verbatim>\<open>getDuplicateIdAttributes\<close> (lines 174 to 185): count the values in a \<^verbatim>\<open>Map\<close>, then
  keep the keys counted more than once, in the order of the map.
\<close>

definition getDuplicateIdAttributes :: "attribute list \<Rightarrow> string list" where
  "getDuplicateIdAttributes attrs =
     (let counts =
            foldl (\<lambda>counts attribute.
                     (let id' = attr_value attribute;
                          currentCount = map_get counts id'
                      in map_set counts id' ((case currentCount of None \<Rightarrow> 0 | Some c \<Rightarrow> c) + (1::nat))))
              [] attrs
      in map fst (filter (\<lambda>(_, count). count > 1) counts))"

text \<open>
  \<^verbatim>\<open>items.flatMap((item) => item.attributes).filter((attribute) => attribute.name === 'id')\<close>
  (lines 111 to 113 and 119 to 121). An item without an \<^verbatim>\<open>attributes\<close> array contributes
  \<^verbatim>\<open>undefined\<close> to the flattened array, and the filter then throws on reading its name.
\<close>

fun flatMap_attributes :: "node list \<Rightarrow> js_error + attribute list" where
  "flatMap_attributes [] = Inr []"
| "flatMap_attributes (item # items) =
     (case attributes item of
        None \<Rightarrow> Inl TypeError
      | Some as \<Rightarrow> (case flatMap_attributes items of Inl e \<Rightarrow> Inl e | Inr rest \<Rightarrow> Inr (as @ rest)))"

definition idAttrs :: "node list \<Rightarrow> js_error + attribute list" where
  "idAttrs items =
     andThen (flatMap_attributes items)
       (\<lambda>all. Inr (filter (\<lambda>attribute. attr_name attribute = ''id'') all))"

text \<open>Lines 104 to 167 of the visitor: both collections are there.\<close>

definition pairItems :: "node \<Rightarrow> node \<Rightarrow> node \<Rightarrow> diagnostic list \<Rightarrow> js_error + diagnostic list" where
  "pairItems tabs tabsBar tabsPages errors =
     (case children tabsBar of
        None \<Rightarrow> Inl TypeError
      | Some barChildren \<Rightarrow>
     (case children tabsPages of
        None \<Rightarrow> Inl TypeError
      | Some pagesChildren \<Rightarrow>
     (let barItems = filter (\<lambda>node. name node = Some ''TabsBarItem'') barChildren;
          pageItems = filter (\<lambda>node. name node = Some ''TabsPageItem'') pagesChildren
      in
      andThen (idAttrs barItems) (\<lambda>barItemIdAttrs.
      andThen (idAttrs pageItems) (\<lambda>pageItemIdAttrs.
     (let barItemIdMap = new_Map (map (\<lambda>attribute. (attr_value attribute, attribute)) barItemIdAttrs);
          pageItemIdMap = new_Map (map (\<lambda>attribute. (attr_value attribute, attribute)) pageItemIdAttrs);
          barItemUniqIds = new_Set (keys barItemIdMap);
          pageItemUniqIds = new_Set (keys pageItemIdMap);
          missingPageItemIds = difference barItemUniqIds pageItemUniqIds;
          missingBarItemIds = difference pageItemUniqIds barItemUniqIds;
          nodeInfo = map_option start (position tabs)
      in
      andThen (forEach missingPageItemIds
                 (\<lambda>id'. push (error_at nodeInfo (missingPageItemReason id'))) errors) (\<lambda>errors.
      andThen (forEach missingBarItemIds
                 (\<lambda>id'. push (error_at nodeInfo (missingBarItemReason id'))) errors) (\<lambda>errors.
     (let dupeBarItemIds = getDuplicateIdAttributes barItemIdAttrs;
          dupePageItemIds = getDuplicateIdAttributes pageItemIdAttrs
      in
      andThen (forEach dupeBarItemIds
                 (\<lambda>id'. push (error_at nodeInfo (dupeBarItemReason id'))) errors) (\<lambda>errors.
      forEach dupePageItemIds
        (\<lambda>id'. push (error_at nodeInfo (dupePageItemReason id'))) errors))))))))))"

text \<open>
  The visitor of \<^verbatim>\<open>validateTabs\<close> (lines 37 to 168). At lines 62 and 70,
  \<^verbatim>\<open>tabsBar\<close> and \<^verbatim>\<open>tabsPages\<close> are still the filtered arrays: an array has no
  \<^verbatim>\<open>position\<close>, so \<^verbatim>\<open>tabsBar.position.start\<close> reads \<^verbatim>\<open>start\<close> of \<^verbatim>\<open>undefined\<close> and
  throws before the diagnostic is built.
\<close>

definition tabsVisitor ::
  "(node \<Rightarrow> string) \<Rightarrow> (node \<Rightarrow> bool) \<Rightarrow> node \<Rightarrow> diagnostic list \<Rightarrow> js_error + diagnostic list" where
  "tabsVisitor getNodeText isEmptyParagraph node errors =
     (let tabs = node in
      case children tabs of
        None \<Rightarrow> Inl TypeError
      | Some cs \<Rightarrow>
     (let nonTabChildren =
            filter (\<lambda>child. name child \<noteq> Some ''TabsBar'' \<and> name child \<noteq> Some ''TabsPages''
                              \<and> \<not> isEmptyParagraph child) cs
      in
      andThen (forEach nonTabChildren
                 (\<lambda>child errors.
                    case position child of
                      None \<Rightarrow> Inl TypeError
                    | Some p \<Rightarrow> push (error_at (Some (start p)) (tabsChildReason getNodeText child)) errors)
                 errors) (\<lambda>errors.
     (let tabsBar = filter (\<lambda>child. name child = Some ''TabsBar'') cs;
          tabsPages = filter (\<lambda>child. name child = Some ''TabsPages'') cs
      in
      if length tabsBar > 1 then Inl TypeError
      else if length tabsPages > 1 then Inl TypeError
      else
     (let tabsBar = first tabsBar;
          tabsPages = first tabsPages
      in
      andThen (if tabsBar = None
               then (case position tabs of
                       None \<Rightarrow> Inl TypeError
                     | Some p \<Rightarrow> push (error_at (Some (start p)) noTabsBarReason) errors)
               else Inr errors) (\<lambda>errors.
      andThen (if tabsPages = None
               then (case position tabs of
                       None \<Rightarrow> Inl TypeError
                     | Some p \<Rightarrow> push (error_at (Some (start p)) noTabsPagesReason) errors)
               else Inr errors) (\<lambda>errors.
      case (tabsBar, tabsPages) of
        (Some bar, Some pages) \<Rightarrow> pairItems tabs bar pages errors
      | _ \<Rightarrow> Inr errors)))))))"

definition validateTabs :: "(node \<Rightarrow> string) \<Rightarrow> (node \<Rightarrow> bool) \<Rightarrow> node \<Rightarrow> js_error + diagnostic list" where
  "validateTabs getNodeText isEmptyParagraph mdxAST =
     visit mdxAST (\<lambda>node. name node = Some ''Tabs'') (tabsVisitor getNodeText isEmptyParagraph) []"

definition validators ::
  "(node \<Rightarrow> string) \<Rightarrow> (node \<Rightarrow> bool) \<Rightarrow> (node \<Rightarrow> js_error + diagnostic list) list" where
  "validators getNodeText isEmptyParagraph =
     [validateSteps getNodeText, validateTabs getNodeText isEmptyParagraph]"

section \<open>Vocabulary of the statements\<close>

text \<open>
  The nodes of a tree in the order in which \<open>visit\<close> reaches them.
\<close>

fun preorder :: "node \<Rightarrow> node list" and preorder_all :: "node list \<Rightarrow> node list" where
  "preorder (Node t n cs a p) = Node t n cs a p # (case cs of None \<Rightarrow> [] | Some cs' \<Rightarrow> preorder_all cs')"
| "preorder_all [] = []"
| "preorder_all (c # cs) = preorder c @ preorder_all cs"

text \<open>
  An item lacks an id when it has an \<^verbatim>\<open>attributes\<close> array and no attribute of it is named
  \<^verbatim>\<open>id\<close>. \<open>withoutIdless tabs\<close> is the wrapper \<open>tabs\<close> with every such
  \<^verbatim>\<open>TabsBarItem\<close> removed from its \<^verbatim>\<open>TabsBar\<close> children and every such
  \<^verbatim>\<open>TabsPageItem\<close> removed from its \<^verbatim>\<open>TabsPages\<close> children.
\<close>

definition lacksId :: "node \<Rightarrow> bool" where
  "lacksId item =
     (case attributes item of
        None \<Rightarrow> False
      | Some as \<Rightarrow> filter (\<lambda>attribute. attr_name attribute = ''id'') as = [])"

fun withoutIdlessItems :: "string \<Rightarrow> node \<Rightarrow> node" where
  "withoutIdlessItems itemName (Node t n cs a p) =
     Node t n (map_option (filter (\<lambda>item. \<not> (name item = Some itemName \<and> lacksId item))) cs) a p"

fun withoutIdless :: "node \<Rightarrow> node" where
  "withoutIdless (Node t n cs a p) =
     Node t n
       (map_option
          (map (\<lambda>child.
                  if name child = Some ''TabsBar'' then withoutIdlessItems ''TabsBarItem'' child
                  else if name child = Some ''TabsPages'' then withoutIdlessItems ''TabsPageItem'' child
                  else child))
          cs) a p"

text \<open>
  The immediate children of a node, none when it has no child array, and the diagnostics
  the paired-container rule owes for one container: one for every immediate child that is
  not named \<^verbatim>\<open>Step\<close>, at the start of that child.
\<close>

definition childNodes :: "node \<Rightarrow> node list" where
  "childNodes n = (case children n of None \<Rightarrow> [] | Some cs \<Rightarrow> cs)"


text \<open>Example trees: an element on a line, a paragraph, and a Tabs wrapper with given ids.\<close>

definition at_line :: "nat \<Rightarrow> position option" where
  "at_line l = Some \<lparr>start = \<lparr>line = l, column = 1, offset = 0\<rparr>\<rparr>"

definition element :: "string \<Rightarrow> attribute list \<Rightarrow> node list \<Rightarrow> nat \<Rightarrow> node" where
  "element nm attrs cs l = Node ''mdxBlockElement'' (Some nm) (Some cs) (Some attrs) (at_line l)"

definition prose :: "nat \<Rightarrow> node" where
  "prose l = Node ''paragraph'' None (Some []) None (at_line l)"

definition example_bar :: "string list \<Rightarrow> node" where
  "example_bar barIds =
     element ''TabsBar'' [] (map (\<lambda>i. element ''TabsBarItem'' [Attribute ''id'' i] [] 3) barIds) 2"

definition example_pages :: "string list \<Rightarrow> node" where
  "example_pages pageIds =
     element ''TabsPages'' [] (map (\<lambda>i. element ''TabsPageItem'' [Attribute ''id'' i] [] 5) pageIds) 4"

definition example_tabs :: "string list \<Rightarrow> string list \<Rightarrow> node" where
  "example_tabs barIds pageIds = element ''Tabs'' [] [example_bar barIds, example_pages pageIds] 1"

section \<open>Loops, maps and sets\<close>

lemma forEach_push:
  "forEach xs (\<lambda>x. push (f x)) errors = Inr (errors @ map f xs)"
  by (induction xs arbitrary: errors) (simp_all add: push_def)

lemma forEach_positioned:
  "\<forall>c\<in>set xs. position c \<noteq> None \<Longrightarrow>
   forEach xs (\<lambda>child errors. case position child of None \<Rightarrow> Inl TypeError
                 | Some p \<Rightarrow> push (error_at (Some (start p)) (r child)) errors) errors
   = Inr (errors @ map (\<lambda>c. error_at (map_option start (position c)) (r c)) xs)"
  by (induction xs arbitrary: errors) (auto simp: push_def)

lemma forEach_unpositioned:
  "\<exists>c\<in>set xs. position c = None \<Longrightarrow>
   forEach xs (\<lambda>child errors. case position child of None \<Rightarrow> Inl TypeError
                 | Some p \<Rightarrow> push (error_at (Some (start p)) (r child)) errors) errors
   = Inl TypeError"
  by (induction xs arbitrary: errors) (auto simp: push_def split: option.splits)

lemma keys_map_set: "map fst (map_set m k v) = (if k \<in> fst ` set m then map fst m else map fst m @ [k])"
  by (induction m k v rule: map_set.induct) auto

lemma keys_foldl_map_set:
  "map fst (foldl (\<lambda>m (k, v). map_set m k v) m es) = foldl set_add (map fst m) (map fst es)"
proof (induction es arbitrary: m)
  case Nil
  then show ?case by simp
next
  case (Cons e es)
  obtain k v where e: "e = (k, v)" by (cases e)
  have "map fst (map_set m k v) = set_add (map fst m) k"
    by (simp add: keys_map_set set_add_def)
  then show ?case using Cons.IH [of "map_set m k v"] by (simp add: e)
qed

lemma keys_new_Map: "keys (new_Map es) = new_Set (map fst es)"
  by (simp add: keys_def new_Map_def new_Set_def keys_foldl_map_set)

lemma foldl_set_add:
  "distinct s \<Longrightarrow> distinct (foldl set_add s xs) \<and> set (foldl set_add s xs) = set s \<union> set xs"
  by (induction xs arbitrary: s) (auto simp: set_add_def)

lemma distinct_new_Set: "distinct (new_Set xs)"
  using foldl_set_add [of "[]" xs] by (simp add: new_Set_def)

lemma set_new_Set: "set (new_Set xs) = set xs"
  using foldl_set_add [of "[]" xs] by (simp add: new_Set_def)

lemma foldl_set_add_distinct:
  "distinct (s @ xs) \<Longrightarrow> foldl set_add s xs = s @ xs"
  by (induction xs arbitrary: s) (auto simp: set_add_def)

lemma new_Set_distinct: "distinct xs \<Longrightarrow> new_Set xs = xs"
  using foldl_set_add_distinct [of "[]" xs] by (simp add: new_Set_def)

lemma new_Set_idem: "new_Set (new_Set xs) = new_Set xs"
  by (simp add: new_Set_distinct distinct_new_Set)

lemma distinct_difference: "distinct a \<Longrightarrow> distinct (difference a b)"
  by (simp add: difference_def)

lemma set_difference: "set (difference a b) = set a - set b"
  by (auto simp: difference_def)

lemma new_Set_snoc: "new_Set (xs @ [x]) = (if x \<in> set xs then new_Set xs else new_Set xs @ [x])"
  by (simp add: new_Set_def set_add_def set_new_Set [unfolded new_Set_def])

lemma new_Set_first_occurrences: "new_Set xs = rev (remdups (rev xs))"
  by (induction xs rule: rev_induct) (simp_all add: new_Set_snoc, simp add: new_Set_def)

lemma map_of_map_set: "map_of (map_set m k v) = (map_of m)(k \<mapsto> v)"
  by (induction m k v rule: map_set.induct) auto

lemma count_step_keys:
  "map fst (map_set m k v) = set_add (map fst m) k"
  by (simp add: keys_map_set set_add_def)

lemma counts_invariant:
  assumes step: "\<And>c a. step c a =
      map_set c (attr_value a) (Suc (case map_of c (attr_value a) of None \<Rightarrow> 0 | Some n \<Rightarrow> n))"
  shows "map fst (foldl step [] attrs) = new_Set (map attr_value attrs) \<and>
   (\<forall>k. map_of (foldl step [] attrs) k =
      (if k \<in> set (map attr_value attrs) then Some (count_list (map attr_value attrs) k) else None))"
proof (induction attrs rule: rev_induct)
  case Nil
  then show ?case by (simp add: new_Set_def)
next
  case (snoc a attrs)
  let ?c = "foldl step [] attrs"
  have k: "map fst ?c = new_Set (map attr_value attrs)" using snoc by blast
  have m: "\<And>k. map_of ?c k =
      (if k \<in> set (map attr_value attrs) then Some (count_list (map attr_value attrs) k) else None)"
    using snoc by blast
  have 1: "map fst (foldl step [] (attrs @ [a])) = new_Set (map attr_value (attrs @ [a]))"
    by (simp add: step count_step_keys k new_Set_def)
  have 2: "map_of (foldl step [] (attrs @ [a])) k =
      (if k \<in> set (map attr_value (attrs @ [a])) then Some (count_list (map attr_value (attrs @ [a])) k) else None)" for k
    by (auto simp: step map_of_map_set m)
  show ?case using 1 2 by blast
qed

lemma filter_counts:
  "distinct (map fst c) \<Longrightarrow>
   map fst (filter (\<lambda>(_, n). P n) c) =
   filter (\<lambda>k. case map_of c k of None \<Rightarrow> False | Some n \<Rightarrow> P n) (map fst c)"
proof (induction c)
  case Nil
  then show ?case by simp
next
  case (Cons x c)
  obtain k n where x: "x = (k, n)" by (cases x)
  have "filter (\<lambda>k'. case map_of ((k, n) # c) k' of None \<Rightarrow> False | Some n \<Rightarrow> P n) (map fst c)
      = filter (\<lambda>k'. case map_of c k' of None \<Rightarrow> False | Some n \<Rightarrow> P n) (map fst c)"
    using Cons.prems by (intro filter_cong) (auto simp: x)
  then show ?case using Cons by (simp add: x)
qed

lemma getDuplicateIdAttributes_eq:
  "getDuplicateIdAttributes attrs =
   filter (\<lambda>k. count_list (map attr_value attrs) k > 1) (new_Set (map attr_value attrs))"
proof -
  define step :: "(string \<times> nat) list \<Rightarrow> attribute \<Rightarrow> (string \<times> nat) list" where
    "step = (\<lambda>counts attribute.
                     (let id' = attr_value attribute;
                          currentCount = map_get counts id'
                      in map_set counts id' ((case currentCount of None \<Rightarrow> 0 | Some c \<Rightarrow> c) + (1::nat))))"
  have step: "\<And>c a. step c a =
      map_set c (attr_value a) (Suc (case map_of c (attr_value a) of None \<Rightarrow> 0 | Some n \<Rightarrow> n))"
    by (simp add: step_def Let_def map_get_def)
  let ?c = "foldl step [] attrs"
  note inv = counts_invariant [of step attrs, OF step]
  have d: "distinct (map fst ?c)" using inv by (simp add: distinct_new_Set)
  have "getDuplicateIdAttributes attrs = map fst (filter (\<lambda>(_, n). n > 1) ?c)"
    by (simp add: getDuplicateIdAttributes_def step_def)
  also have "\<dots> = filter (\<lambda>k. case map_of ?c k of None \<Rightarrow> False | Some n \<Rightarrow> n > 1) (map fst ?c)"
    using d by (rule filter_counts)
  also have "\<dots> = filter (\<lambda>k. count_list (map attr_value attrs) k > 1) (map fst ?c)"
    using inv by (intro filter_cong) (auto simp: set_new_Set)
  finally show ?thesis using inv by simp
qed

lemma distinct_getDuplicateIdAttributes: "distinct (getDuplicateIdAttributes attrs)"
  by (simp add: getDuplicateIdAttributes_eq distinct_new_Set)

lemma set_getDuplicateIdAttributes:
  "set (getDuplicateIdAttributes attrs) = {k. count_list (map attr_value attrs) k > 1}"
proof -
  have "k \<in> set (map attr_value attrs)" if "count_list (map attr_value attrs) k > 1" for k
    using that count_list_0_iff [of "map attr_value attrs" k] by (cases "k \<in> set (map attr_value attrs)") auto
  then show ?thesis by (auto simp: getDuplicateIdAttributes_eq set_new_Set)
qed

lemma js_error_unique: "(x::js_error) = TypeError"
  by (cases x) simp

lemma keys_id_map:
  "keys (new_Map (map (\<lambda>attribute. (attr_value attribute, attribute)) attrs)) = new_Set (map attr_value attrs)"
  by (simp add: keys_new_Map comp_def)

lemma pairItems_eq:
  assumes "children tabsBar = Some bcs" and "children tabsPages = Some pcs"
    and "idAttrs (filter (\<lambda>node. name node = Some ''TabsBarItem'') bcs) = Inr battrs"
    and "idAttrs (filter (\<lambda>node. name node = Some ''TabsPageItem'') pcs) = Inr pattrs"
  shows "pairItems tabs tabsBar tabsPages errors =
    Inr (errors
      @ map (\<lambda>i. error_at (map_option start (position tabs)) (missingPageItemReason i))
          (difference (new_Set (map attr_value battrs)) (new_Set (map attr_value pattrs)))
      @ map (\<lambda>i. error_at (map_option start (position tabs)) (missingBarItemReason i))
          (difference (new_Set (map attr_value pattrs)) (new_Set (map attr_value battrs)))
      @ map (\<lambda>i. error_at (map_option start (position tabs)) (dupeBarItemReason i))
          (getDuplicateIdAttributes battrs)
      @ map (\<lambda>i. error_at (map_option start (position tabs)) (dupePageItemReason i))
          (getDuplicateIdAttributes pattrs))"
  using assms
  by (simp add: pairItems_def andThen_def Let_def keys_id_map new_Set_idem forEach_push)

lemma tabsVisitor_both:
  assumes "children tabs = Some cs"
    and "\<forall>c\<in>set cs. name c \<noteq> Some ''TabsBar'' \<and> name c \<noteq> Some ''TabsPages'' \<and> \<not> e c \<longrightarrow> position c \<noteq> None"
    and "filter (\<lambda>child. name child = Some ''TabsBar'') cs = [bar]"
    and "filter (\<lambda>child. name child = Some ''TabsPages'') cs = [pages]"
    and "children bar = Some bcs" and "children pages = Some pcs"
    and "idAttrs (filter (\<lambda>node. name node = Some ''TabsBarItem'') bcs) = Inr battrs"
    and "idAttrs (filter (\<lambda>node. name node = Some ''TabsPageItem'') pcs) = Inr pattrs"
  shows "tabsVisitor g e tabs errors =
    Inr (errors
      @ map (\<lambda>c. error_at (map_option start (position c)) (tabsChildReason g c))
          (filter (\<lambda>child. name child \<noteq> Some ''TabsBar'' \<and> name child \<noteq> Some ''TabsPages'' \<and> \<not> e child) cs)
      @ map (\<lambda>i. error_at (map_option start (position tabs)) (missingPageItemReason i))
          (difference (new_Set (map attr_value battrs)) (new_Set (map attr_value pattrs)))
      @ map (\<lambda>i. error_at (map_option start (position tabs)) (missingBarItemReason i))
          (difference (new_Set (map attr_value pattrs)) (new_Set (map attr_value battrs)))
      @ map (\<lambda>i. error_at (map_option start (position tabs)) (dupeBarItemReason i))
          (getDuplicateIdAttributes battrs)
      @ map (\<lambda>i. error_at (map_option start (position tabs)) (dupePageItemReason i))
          (getDuplicateIdAttributes pattrs))"
proof -
  let ?nonTab = "filter (\<lambda>child. name child \<noteq> Some ''TabsBar'' \<and> name child \<noteq> Some ''TabsPages'' \<and> \<not> e child) cs"
  have pos: "\<forall>c\<in>set ?nonTab. position c \<noteq> None" using assms(2) by auto
  show ?thesis
    unfolding tabsVisitor_def Let_def
    by (simp add: assms(1,3,4) forEach_positioned [OF pos] andThen_def
        pairItems_eq [OF assms(5-8)])
qed

lemma tabsVisitor_absent:
  assumes "children tabs = Some cs"
    and "\<forall>c\<in>set cs. name c \<noteq> Some ''TabsBar'' \<and> name c \<noteq> Some ''TabsPages'' \<and> \<not> e c \<longrightarrow> position c \<noteq> None"
    and "position tabs = Some p"
    and "length (filter (\<lambda>child. name child = Some ''TabsBar'') cs) \<le> 1"
    and "length (filter (\<lambda>child. name child = Some ''TabsPages'') cs) \<le> 1"
    and "filter (\<lambda>child. name child = Some ''TabsBar'') cs = []
       \<or> filter (\<lambda>child. name child = Some ''TabsPages'') cs = []"
  shows "tabsVisitor g e tabs errors =
    Inr (errors
      @ map (\<lambda>c. error_at (map_option start (position c)) (tabsChildReason g c))
          (filter (\<lambda>child. name child \<noteq> Some ''TabsBar'' \<and> name child \<noteq> Some ''TabsPages'' \<and> \<not> e child) cs)
      @ (if filter (\<lambda>child. name child = Some ''TabsBar'') cs = []
         then [error_at (Some (start p)) noTabsBarReason] else [])
      @ (if filter (\<lambda>child. name child = Some ''TabsPages'') cs = []
         then [error_at (Some (start p)) noTabsPagesReason] else []))"
proof -
  let ?nonTab = "filter (\<lambda>child. name child \<noteq> Some ''TabsBar'' \<and> name child \<noteq> Some ''TabsPages'' \<and> \<not> e child) cs"
  let ?bars = "filter (\<lambda>child. name child = Some ''TabsBar'') cs"
  let ?pagess = "filter (\<lambda>child. name child = Some ''TabsPages'') cs"
  have pos: "\<forall>c\<in>set ?nonTab. position c \<noteq> None" using assms(2) by auto
  have b: "?bars = [] \<or> (\<exists>bar. ?bars = [bar])" using assms(4) by (cases ?bars) auto
  have pg: "?pagess = [] \<or> (\<exists>pages. ?pagess = [pages])" using assms(5) by (cases ?pagess) auto
  show ?thesis
    unfolding tabsVisitor_def Let_def
    using b pg assms(6)
    by (auto simp add: assms(1,3) forEach_positioned [OF pos] andThen_def push_def)
qed

lemma tabsVisitor_excess:
  assumes "length (filter (\<lambda>child. name child = Some ''TabsBar'') (case children tabs of None \<Rightarrow> [] | Some cs \<Rightarrow> cs)) > 1
     \<or> length (filter (\<lambda>child. name child = Some ''TabsPages'') (case children tabs of None \<Rightarrow> [] | Some cs \<Rightarrow> cs)) > 1"
  shows "tabsVisitor g e tabs errors = Inl TypeError"
proof (cases "children tabs")
  case None
  then show ?thesis by (simp add: tabsVisitor_def)
next
  case (Some cs)
  show ?thesis
    using assms unfolding tabsVisitor_def Let_def
    by (auto simp add: Some andThen_def js_error_unique split: sum.splits)
qed

lemma count_list_map_inj:
  "(\<And>a b. f a = f b \<Longrightarrow> a = b) \<Longrightarrow> count_list (map f xs) (f x) = count_list xs x"
  by (induction xs) auto

lemma count_list_distinct:
  "distinct xs \<Longrightarrow> count_list xs x = (if x \<in> set xs then 1 else 0)"
  by (induction xs) auto

lemma count_list_map_other:
  "(\<And>a. f a \<noteq> y) \<Longrightarrow> count_list (map f xs) y = 0"
  by (induction xs) auto

lemma error_at_eq [simp]: "error_at i r = error_at j s \<longleftrightarrow> i = j \<and> r = s"
  by (auto simp: error_at_def)

lemma reason_error_at [simp]: "reason (error_at i r) = r"
  by (simp add: error_at_def)

lemma nodeInfo_error_at [simp]: "nodeInfo (error_at i r) = i"
  by (simp add: error_at_def)

lemma missingPageItemReason_inj [simp]:
  "missingPageItemReason i = missingPageItemReason j \<longleftrightarrow> i = j"
  by (simp add: missingPageItemReason_def)

lemma missingBarItemReason_inj [simp]:
  "missingBarItemReason i = missingBarItemReason j \<longleftrightarrow> i = j"
  by (simp add: missingBarItemReason_def)

lemma dupeBarItemReason_inj [simp]:
  "dupeBarItemReason i = dupeBarItemReason j \<longleftrightarrow> i = j"
  by (simp add: dupeBarItemReason_def)

lemma dupePageItemReason_inj [simp]:
  "dupePageItemReason i = dupePageItemReason j \<longleftrightarrow> i = j"
  by (simp add: dupePageItemReason_def)

lemma reasons_distinct [simp]:
  "missingPageItemReason i \<noteq> missingBarItemReason j"
  "missingPageItemReason i \<noteq> dupeBarItemReason j"
  "missingPageItemReason i \<noteq> dupePageItemReason j"
  "missingPageItemReason i \<noteq> tabsChildReason g c"
  "missingPageItemReason i \<noteq> noTabsBarReason"
  "missingPageItemReason i \<noteq> noTabsPagesReason"
  "missingBarItemReason i \<noteq> missingPageItemReason j"
  "missingBarItemReason i \<noteq> dupeBarItemReason j"
  "missingBarItemReason i \<noteq> dupePageItemReason j"
  "missingBarItemReason i \<noteq> tabsChildReason g c"
  "missingBarItemReason i \<noteq> noTabsBarReason"
  "missingBarItemReason i \<noteq> noTabsPagesReason"
  "dupeBarItemReason i \<noteq> missingPageItemReason j"
  "dupeBarItemReason i \<noteq> missingBarItemReason j"
  "dupeBarItemReason i \<noteq> dupePageItemReason j"
  "dupeBarItemReason i \<noteq> tabsChildReason g c"
  "dupeBarItemReason i \<noteq> noTabsBarReason"
  "dupeBarItemReason i \<noteq> noTabsPagesReason"
  "dupePageItemReason i \<noteq> missingPageItemReason j"
  "dupePageItemReason i \<noteq> missingBarItemReason j"
  "dupePageItemReason i \<noteq> dupeBarItemReason j"
  "dupePageItemReason i \<noteq> tabsChildReason g c"
  "dupePageItemReason i \<noteq> noTabsBarReason"
  "dupePageItemReason i \<noteq> noTabsPagesReason"
  "tabsChildReason g c \<noteq> missingPageItemReason j"
  "tabsChildReason g c \<noteq> missingBarItemReason j"
  "tabsChildReason g c \<noteq> dupeBarItemReason j"
  "tabsChildReason g c \<noteq> dupePageItemReason j"
  "tabsChildReason g c \<noteq> noTabsBarReason"
  "tabsChildReason g c \<noteq> noTabsPagesReason"
  "noTabsBarReason \<noteq> tabsChildReason g c"
  "noTabsPagesReason \<noteq> tabsChildReason g c"
  "noTabsBarReason \<noteq> noTabsPagesReason"
  by (simp_all add: missingPageItemReason_def missingBarItemReason_def dupeBarItemReason_def
      dupePageItemReason_def tabsChildReason_def noTabsBarReason_def noTabsPagesReason_def)

lemma visit_throws_aux:
  fixes visitor :: "node \<Rightarrow> 's \<Rightarrow> js_error + 's"
  shows "(\<And>s. visitor n s = Inl TypeError) \<Longrightarrow> test n \<Longrightarrow> n \<in> set (preorder t) \<Longrightarrow>
      visit t test visitor s = Inl TypeError"
    and "(\<And>s. visitor n s = Inl TypeError) \<Longrightarrow> test n \<Longrightarrow> n \<in> set (preorder_all ts) \<Longrightarrow>
      visit_all ts test visitor s = Inl TypeError"
proof (induction t test visitor s and ts test visitor s rule: visit_visit_all.induct)
  case (1 t n' cs a p test visitor s)
  show ?case
  proof (cases "n = Node t n' cs a p")
    case True
    then show ?thesis using "1.prems" by simp
  next
    case False
    then obtain cs' where cs: "cs = Some cs'" and mem: "n \<in> set (preorder_all cs')"
      using "1.prems"(3) by (cases cs) auto
    show ?thesis
    proof (cases "if test (Node t n' cs a p) then visitor (Node t n' cs a p) s else Inr s")
      case (Inl x)
      then show ?thesis by (simp add: js_error_unique)
    next
      case (Inr s')
      then show ?thesis using "1.IH" [OF Inr cs "1.prems"(1,2) mem]
        by (auto simp: cs split: if_splits)
    qed
  qed
next
  case (2 test visitor s)
  then show ?case by simp
next
  case (3 c cs test visitor s)
  show ?case
  proof (cases "visit c test visitor s")
    case (Inl x)
    then show ?thesis by (simp add: js_error_unique)
  next
    case (Inr s')
    have "n \<notin> set (preorder c)"
      using "3.IH"(1) [OF "3.prems"(1,2)] Inr by auto
    then have "n \<in> set (preorder_all cs)" using "3.prems"(3) by simp
    then show ?thesis using "3.IH"(2) [OF Inr "3.prems"(1,2)] Inr by simp
  qed
qed

lemma visit_collect_aux:
  fixes visitor :: "node \<Rightarrow> 'a list \<Rightarrow> js_error + 'a list"
  shows "(\<And>n s. n \<in> set (preorder t) \<Longrightarrow> test n \<Longrightarrow> visitor n s = Inr (s @ out n)) \<Longrightarrow>
       visit t test visitor s = Inr (s @ concat (map out (filter test (preorder t))))"
    and "(\<And>n s. n \<in> set (preorder_all ts) \<Longrightarrow> test n \<Longrightarrow> visitor n s = Inr (s @ out n)) \<Longrightarrow>
       visit_all ts test visitor s = Inr (s @ concat (map out (filter test (preorder_all ts))))"
proof (induction t test visitor s and ts test visitor s rule: visit_visit_all.induct)
  case (1 t n' cs a p test visitor s)
  then show ?case
    by (cases cs) (auto split: sum.splits)
next
  case (2 test visitor s)
  then show ?case by simp
next
  case (3 c cs test visitor s)
  then show ?case by (auto split: sum.splits)
qed

lemma validateTabs_collect:
  assumes "\<And>n s. n \<in> set (preorder mdxAST) \<Longrightarrow> name n = Some ''Tabs'' \<Longrightarrow>
      tabsVisitor g e n s = Inr (s @ out n)"
  shows "validateTabs g e mdxAST =
    Inr (concat (map out (filter (\<lambda>node. name node = Some ''Tabs'') (preorder mdxAST))))"
  unfolding validateTabs_def
  using visit_collect_aux(1) [of mdxAST "\<lambda>node. name node = Some ''Tabs''" "tabsVisitor g e" out "[]"] assms
  by simp

lemma visit_no_match_aux:
  fixes visitor :: "node \<Rightarrow> 's \<Rightarrow> js_error + 's"
  shows "(\<And>n. n \<in> set (preorder t) \<Longrightarrow> \<not> test n) \<Longrightarrow> visit t test visitor s = Inr s"
    and "(\<And>n. n \<in> set (preorder_all ts) \<Longrightarrow> \<not> test n) \<Longrightarrow> visit_all ts test visitor s = Inr s"
proof (induction t test visitor s and ts test visitor s rule: visit_visit_all.induct)
  case (1 t n cs a p test visitor s)
  then show ?case by (cases cs) auto
next
  case (2 test visitor s)
  then show ?case by simp
next
  case (3 c cs test visitor s)
  then show ?case by auto
qed

lemma validateTabs_root:
  assumes "name t = Some ''Tabs''"
    and "\<And>n. n \<in> set (preorder_all (childNodes t)) \<Longrightarrow> name n \<noteq> Some ''Tabs''"
  shows "validateTabs g e t = tabsVisitor g e t []"
proof (cases t)
  case (Node ty n cs a p)
  show ?thesis
  proof (cases "tabsVisitor g e t []")
    case (Inl x)
    then show ?thesis using assms(1) by (simp add: validateTabs_def Node)
  next
    case (Inr s')
    have "visit_all cs' (\<lambda>node. name node = Some ''Tabs'') (tabsVisitor g e) s' = Inr s'"
      if "cs = Some cs'" for cs'
      using assms(2) that
      by (intro visit_no_match_aux(2)) (simp add: Node childNodes_def)
    then show ?thesis
      using assms(1) Inr by (cases cs) (simp_all add: validateTabs_def Node)
  qed
qed

lemma validateTabs_root_excess:
  assumes "name t = Some ''Tabs''" and "children t = Some cs"
    and "length (filter (\<lambda>child. name child = Some ''TabsBar'') cs) > 1
       \<or> length (filter (\<lambda>child. name child = Some ''TabsPages'') cs) > 1"
  shows "validateTabs g e t = Inl TypeError"
proof -
  have "tabsVisitor g e t s = Inl TypeError" for s
    using assms(2,3) by (intro tabsVisitor_excess) simp
  moreover have "t \<in> set (preorder t)" by (cases t) simp
  ultimately show ?thesis
    unfolding validateTabs_def
    using visit_throws_aux(1) [of "tabsVisitor g e" t "\<lambda>node. name node = Some ''Tabs''" t "[]"] assms(1)
    by simp
qed

lemma flatMap_attributes_present:
  "\<forall>i\<in>set items. attributes i \<noteq> None \<Longrightarrow> \<exists>as. flatMap_attributes items = Inr as"
  by (induction items) auto

lemma idAttrs_present:
  "\<forall>i\<in>set items. attributes i \<noteq> None \<Longrightarrow> \<exists>as. idAttrs items = Inr as"
  using flatMap_attributes_present [of items] by (auto simp: idAttrs_def andThen_def)


lemma withoutIdlessItems_sel [simp]:
  "type (withoutIdlessItems nm c) = type c"
  "name (withoutIdlessItems nm c) = name c"
  "attributes (withoutIdlessItems nm c) = attributes c"
  "position (withoutIdlessItems nm c) = position c"
  "children (withoutIdlessItems nm c) =
     map_option (filter (\<lambda>item. \<not> (name item = Some nm \<and> lacksId item))) (children c)"
  by (cases c; simp)+

lemma flatMap_attributes_idless:
  "andThen (flatMap_attributes (filter (\<lambda>item. \<not> (P item \<and> lacksId item)) items))
       (\<lambda>all. Inr (filter (\<lambda>attribute. attr_name attribute = ''id'') all))
   = andThen (flatMap_attributes items)
       (\<lambda>all. Inr (filter (\<lambda>attribute. attr_name attribute = ''id'') all))"
  by (induction items) (auto simp: andThen_def lacksId_def split: sum.splits option.splits)

lemma idAttrs_idless:
  "idAttrs (filter (\<lambda>node. name node = Some nm)
       (filter (\<lambda>item. \<not> (name item = Some nm \<and> lacksId item)) items))
   = idAttrs (filter (\<lambda>node. name node = Some nm) items)"
proof -
  have "filter (\<lambda>node. name node = Some nm) (filter (\<lambda>item. \<not> (name item = Some nm \<and> lacksId item)) items)
      = filter (\<lambda>item. \<not> (name item = Some nm \<and> lacksId item)) (filter (\<lambda>node. name node = Some nm) items)"
    by (induction items) auto
  then show ?thesis
    using flatMap_attributes_idless [of "\<lambda>item. name item = Some nm" "filter (\<lambda>node. name node = Some nm) items"]
    by (simp add: idAttrs_def)
qed

lemma pairItems_idless:
  "position tabs' = position tabs \<Longrightarrow>
   pairItems tabs' (withoutIdlessItems ''TabsBarItem'' bar) (withoutIdlessItems ''TabsPageItem'' pages) errors
   = pairItems tabs bar pages errors"
  by (cases "children bar"; cases "children pages")
     (simp_all only: pairItems_def withoutIdlessItems_sel option.simps option.map Let_def idAttrs_idless)

lemma first_map: "first (map f xs) = map_option f (first xs)"
  by (cases xs) simp_all

section \<open>The example trees\<close>

lemma example_sel:
  "children (element nm attrs cs l) = Some cs"
  "name (element nm attrs cs l) = Some nm"
  "attributes (element nm attrs cs l) = Some attrs"
  "position (element nm attrs cs l) = at_line l"
  "type (element nm attrs cs l) = ''mdxBlockElement''"
  by (simp_all add: element_def)

lemma example_tabs_parts:
  "children (example_tabs bs ps) = Some [example_bar bs, example_pages ps]"
  "position (example_tabs bs ps) = at_line 1"
  "name (example_bar bs) = Some ''TabsBar''"
  "name (example_pages ps) = Some ''TabsPages''"
  "idAttrs (filter (\<lambda>node. name node = Some ''TabsBarItem'')
      (map (\<lambda>i. element ''TabsBarItem'' [Attribute ''id'' i] [] 3) bs)) = Inr (map (Attribute ''id'') bs)"
  "idAttrs (filter (\<lambda>node. name node = Some ''TabsPageItem'')
      (map (\<lambda>i. element ''TabsPageItem'' [Attribute ''id'' i] [] 5) ps)) = Inr (map (Attribute ''id'') ps)"
     apply (simp_all add: example_tabs_def example_bar_def example_pages_def example_sel)
   apply (induction bs; simp add: idAttrs_def andThen_def example_sel split: sum.splits)
  apply (induction ps; simp add: idAttrs_def andThen_def example_sel split: sum.splits)
  done

lemma example_preorder:
  "preorder_all (map (\<lambda>i. element nm [Attribute ''id'' i] [] l) ids) = map (\<lambda>i. element nm [Attribute ''id'' i] [] l) ids"
  by (induction ids) (simp_all add: element_def)

lemma example_no_tabs:
  "n \<in> set (preorder (example_bar bs)) \<Longrightarrow> name n \<noteq> Some ''Tabs''"
  "n \<in> set (preorder (example_pages ps)) \<Longrightarrow> name n \<noteq> Some ''Tabs''"
  by (auto simp: example_bar_def example_pages_def element_def example_preorder [unfolded element_def])

lemma tabsVisitor_example:
  "tabsVisitor g e (example_tabs bs ps) errors =
    Inr (errors
      @ map (\<lambda>i. error_at (Some \<lparr>line = 1, column = 1, offset = 0\<rparr>) (missingPageItemReason i))
          (difference (new_Set bs) (new_Set ps))
      @ map (\<lambda>i. error_at (Some \<lparr>line = 1, column = 1, offset = 0\<rparr>) (missingBarItemReason i))
          (difference (new_Set ps) (new_Set bs))
      @ map (\<lambda>i. error_at (Some \<lparr>line = 1, column = 1, offset = 0\<rparr>) (dupeBarItemReason i))
          (getDuplicateIdAttributes (map (Attribute ''id'') bs))
      @ map (\<lambda>i. error_at (Some \<lparr>line = 1, column = 1, offset = 0\<rparr>) (dupePageItemReason i))
          (getDuplicateIdAttributes (map (Attribute ''id'') ps)))"
proof -
  let ?cs = "[example_bar bs, example_pages ps]"
  have h2: "\<forall>c\<in>set ?cs.
      name c \<noteq> Some ''TabsBar'' \<and> name c \<noteq> Some ''TabsPages'' \<and> \<not> e c \<longrightarrow> position c \<noteq> None"
    by (simp add: example_tabs_parts)
  have h3: "filter (\<lambda>child. name child = Some ''TabsBar'') ?cs = [example_bar bs]"
    by (simp add: example_tabs_parts)
  have h4: "filter (\<lambda>child. name child = Some ''TabsPages'') ?cs = [example_pages ps]"
    by (simp add: example_tabs_parts)
  have h5: "children (example_bar bs) = Some (map (\<lambda>i. element ''TabsBarItem'' [Attribute ''id'' i] [] 3) bs)"
    by (simp add: example_bar_def example_sel)
  have h6: "children (example_pages ps) = Some (map (\<lambda>i. element ''TabsPageItem'' [Attribute ''id'' i] [] 5) ps)"
    by (simp add: example_pages_def example_sel)
  have nt: "filter (\<lambda>child. name child \<noteq> Some ''TabsBar'' \<and> name child \<noteq> Some ''TabsPages'' \<and> \<not> e child) ?cs = []"
    by (simp add: example_tabs_parts)
  show ?thesis
    using tabsVisitor_both [OF example_tabs_parts(1) h2 h3 h4 h5 h6 example_tabs_parts(5,6), of g errors]
    by (simp add: nt example_tabs_parts at_line_def comp_def)
qed

lemma validateTabs_example:
  "validateTabs g e (example_tabs bs ps) = tabsVisitor g e (example_tabs bs ps) []"
proof (rule validateTabs_root)
  show "name (example_tabs bs ps) = Some ''Tabs''" by (simp add: example_tabs_def example_sel)
  fix n assume "n \<in> set (preorder_all (childNodes (example_tabs bs ps)))"
  then show "name n \<noteq> Some ''Tabs''"
    using example_no_tabs by (auto simp: childNodes_def example_tabs_parts)
qed

section \<open>The bar/pages pairing rule\<close>

text \<open>
  Where no collection is repeated, the item checks do what the rule asks. Take a wrapper
  with exactly one \<^verbatim>\<open>TabsBar\<close> and one \<^verbatim>\<open>TabsPages\<close> child. Among the diagnostics the
  visitor adds there is exactly one "no corresponding TabsPageItem" diagnostic for every
  id of the bar items that no page item has, exactly one "no corresponding TabsBarItem"
  diagnostic for every id of the page items that no bar item has, and none for any other
  id; an id counted more than once among the id attributes of one collection gets exactly
  one "duplicate id" diagnostic for that collection, and an id counted once gets none.
  All of them carry the start position of the wrapper.
\<close>

lemma tabsVisitor_pairing_counts:
  assumes "children tabs = Some cs"
    and "\<forall>c\<in>set cs. name c \<noteq> Some ''TabsBar'' \<and> name c \<noteq> Some ''TabsPages'' \<and> \<not> e c \<longrightarrow> position c \<noteq> None"
    and "filter (\<lambda>child. name child = Some ''TabsBar'') cs = [bar]"
    and "filter (\<lambda>child. name child = Some ''TabsPages'') cs = [pages]"
    and "children bar = Some bcs" and "children pages = Some pcs"
    and "idAttrs (filter (\<lambda>node. name node = Some ''TabsBarItem'') bcs) = Inr battrs"
    and "idAttrs (filter (\<lambda>node. name node = Some ''TabsPageItem'') pcs) = Inr pattrs"
  shows "\<exists>ds. tabsVisitor g e tabs errors = Inr (errors @ ds) \<and>
    (\<forall>i. count_list ds (error_at (map_option start (position tabs)) (missingPageItemReason i)) =
       (if i \<in> set (map attr_value battrs) - set (map attr_value pattrs) then 1 else 0)) \<and>
    (\<forall>i. count_list ds (error_at (map_option start (position tabs)) (missingBarItemReason i)) =
       (if i \<in> set (map attr_value pattrs) - set (map attr_value battrs) then 1 else 0)) \<and>
    (\<forall>d\<in>set ds. \<forall>i. reason d = missingPageItemReason i \<or> reason d = missingBarItemReason i \<longrightarrow>
       nodeInfo d = map_option start (position tabs))"
proof -
  let ?info = "map_option start (position tabs)"
  let ?A = "map (\<lambda>c. error_at (map_option start (position c)) (tabsChildReason g c))
          (filter (\<lambda>child. name child \<noteq> Some ''TabsBar'' \<and> name child \<noteq> Some ''TabsPages'' \<and> \<not> e child) cs)"
  let ?mp = "difference (new_Set (map attr_value battrs)) (new_Set (map attr_value pattrs))"
  let ?mb = "difference (new_Set (map attr_value pattrs)) (new_Set (map attr_value battrs))"
  let ?B = "map (\<lambda>i. error_at ?info (missingPageItemReason i)) ?mp"
  let ?C = "map (\<lambda>i. error_at ?info (missingBarItemReason i)) ?mb"
  let ?D = "map (\<lambda>i. error_at ?info (dupeBarItemReason i)) (getDuplicateIdAttributes battrs)"
  let ?E = "map (\<lambda>i. error_at ?info (dupePageItemReason i)) (getDuplicateIdAttributes pattrs)"
  let ?ds = "?A @ ?B @ ?C @ ?D @ ?E"
  have run: "tabsVisitor g e tabs errors = Inr (errors @ ?ds)"
    using tabsVisitor_both [OF assms] by simp
  have dmp: "distinct ?mp" and dmb: "distinct ?mb"
    by (simp_all add: distinct_difference distinct_new_Set)
  have smp: "set ?mp = set (map attr_value battrs) - set (map attr_value pattrs)"
    and smb: "set ?mb = set (map attr_value pattrs) - set (map attr_value battrs)"
    by (simp_all add: set_difference set_new_Set)
  have cB: "count_list ?B (error_at ?info (missingPageItemReason i)) = (if i \<in> set ?mp then 1 else 0)" for i
    using count_list_map_inj [of "\<lambda>i. error_at ?info (missingPageItemReason i)" ?mp i]
    by (simp add: count_list_distinct [OF dmp])
  have cC: "count_list ?C (error_at ?info (missingBarItemReason i)) = (if i \<in> set ?mb then 1 else 0)" for i
    using count_list_map_inj [of "\<lambda>i. error_at ?info (missingBarItemReason i)" ?mb i]
    by (simp add: count_list_distinct [OF dmb])
  have page: "count_list ?ds (error_at ?info (missingPageItemReason i)) =
       (if i \<in> set (map attr_value battrs) - set (map attr_value pattrs) then 1 else 0)" for i
    using cB [of i] by (simp add: count_list_map_other smp del: set_map)
  have bar: "count_list ?ds (error_at ?info (missingBarItemReason i)) =
       (if i \<in> set (map attr_value pattrs) - set (map attr_value battrs) then 1 else 0)" for i
    using cC [of i] by (simp add: count_list_map_other smb del: set_map)
  have anchored: "\<forall>d\<in>set ?ds. \<forall>i. reason d = missingPageItemReason i \<or> reason d = missingBarItemReason i \<longrightarrow>
       nodeInfo d = ?info"
    by auto
  show ?thesis using run page bar anchored by blast
qed

lemma tabsVisitor_duplicate_counts:
  assumes "children tabs = Some cs"
    and "\<forall>c\<in>set cs. name c \<noteq> Some ''TabsBar'' \<and> name c \<noteq> Some ''TabsPages'' \<and> \<not> e c \<longrightarrow> position c \<noteq> None"
    and "filter (\<lambda>child. name child = Some ''TabsBar'') cs = [bar]"
    and "filter (\<lambda>child. name child = Some ''TabsPages'') cs = [pages]"
    and "children bar = Some bcs" and "children pages = Some pcs"
    and "idAttrs (filter (\<lambda>node. name node = Some ''TabsBarItem'') bcs) = Inr battrs"
    and "idAttrs (filter (\<lambda>node. name node = Some ''TabsPageItem'') pcs) = Inr pattrs"
  shows "\<exists>ds. tabsVisitor g e tabs errors = Inr (errors @ ds) \<and>
    (\<forall>i. count_list ds (error_at (map_option start (position tabs)) (dupeBarItemReason i)) =
       (if count_list (map attr_value battrs) i > 1 then 1 else 0)) \<and>
    (\<forall>i. count_list ds (error_at (map_option start (position tabs)) (dupePageItemReason i)) =
       (if count_list (map attr_value pattrs) i > 1 then 1 else 0)) \<and>
    (\<forall>d\<in>set ds. \<forall>i. reason d = dupeBarItemReason i \<or> reason d = dupePageItemReason i \<longrightarrow>
       nodeInfo d = map_option start (position tabs))"
proof -
  let ?info = "map_option start (position tabs)"
  let ?A = "map (\<lambda>c. error_at (map_option start (position c)) (tabsChildReason g c))
          (filter (\<lambda>child. name child \<noteq> Some ''TabsBar'' \<and> name child \<noteq> Some ''TabsPages'' \<and> \<not> e child) cs)"
  let ?mp = "difference (new_Set (map attr_value battrs)) (new_Set (map attr_value pattrs))"
  let ?mb = "difference (new_Set (map attr_value pattrs)) (new_Set (map attr_value battrs))"
  let ?B = "map (\<lambda>i. error_at ?info (missingPageItemReason i)) ?mp"
  let ?C = "map (\<lambda>i. error_at ?info (missingBarItemReason i)) ?mb"
  let ?db = "getDuplicateIdAttributes battrs"
  let ?dp = "getDuplicateIdAttributes pattrs"
  let ?D = "map (\<lambda>i. error_at ?info (dupeBarItemReason i)) ?db"
  let ?E = "map (\<lambda>i. error_at ?info (dupePageItemReason i)) ?dp"
  let ?ds = "?A @ ?B @ ?C @ ?D @ ?E"
  have run: "tabsVisitor g e tabs errors = Inr (errors @ ?ds)"
    using tabsVisitor_both [OF assms] by simp
  have cD: "count_list ?D (error_at ?info (dupeBarItemReason i)) = (if i \<in> set ?db then 1 else 0)" for i
    using count_list_map_inj [of "\<lambda>i. error_at ?info (dupeBarItemReason i)" ?db i]
    by (simp add: count_list_distinct [OF distinct_getDuplicateIdAttributes])
  have cE: "count_list ?E (error_at ?info (dupePageItemReason i)) = (if i \<in> set ?dp then 1 else 0)" for i
    using count_list_map_inj [of "\<lambda>i. error_at ?info (dupePageItemReason i)" ?dp i]
    by (simp add: count_list_distinct [OF distinct_getDuplicateIdAttributes])
  have bar: "count_list ?ds (error_at ?info (dupeBarItemReason i)) =
       (if count_list (map attr_value battrs) i > 1 then 1 else 0)" for i
    using cD [of i] by (simp add: count_list_map_other set_getDuplicateIdAttributes)
  have page: "count_list ?ds (error_at ?info (dupePageItemReason i)) =
       (if count_list (map attr_value pattrs) i > 1 then 1 else 0)" for i
    using cE [of i] by (simp add: count_list_map_other set_getDuplicateIdAttributes)
  have anchored: "\<forall>d\<in>set ?ds. \<forall>i. reason d = dupeBarItemReason i \<or> reason d = dupePageItemReason i \<longrightarrow>
       nodeInfo d = ?info"
    by auto
  show ?thesis using run page bar anchored by blast
qed

text \<open>
  Claim C1. The pairing check of lines 111 to 147 runs only when lines 61 to 76 return. On
  a tree that is a wrapper with one \<^verbatim>\<open>TabsBar\<close> (item a) and one \<^verbatim>\<open>TabsPages\<close> (item b),
  \<open>validateTabs\<close> returns the two pairing diagnostics, at the start of the wrapper. The
  same wrapper with a second \<^verbatim>\<open>TabsBar\<close> child still has both a \<^verbatim>\<open>TabsBar\<close> and a
  \<^verbatim>\<open>TabsPages\<close> child, and \<open>validateTabs\<close> throws a \<^verbatim>\<open>TypeError\<close> on it: line 62 reads
  \<^verbatim>\<open>position.start\<close> of the filtered array, and no pairing diagnostic is returned.
\<close>

theorem tabs_pairing_lost_with_repeated_bar:
  "validateTabs g e (element ''Tabs'' [] [example_bar [''a''], example_pages [''b'']] 1)
     = Inr [error_at (Some \<lparr>line = 1, column = 1, offset = 0\<rparr>) (missingPageItemReason ''a''),
            error_at (Some \<lparr>line = 1, column = 1, offset = 0\<rparr>) (missingBarItemReason ''b'')]
   \<and> validateTabs g e
       (element ''Tabs'' [] [example_bar [''a''], example_bar [''c''], example_pages [''b'']] 1)
     = Inl TypeError"
proof
  show "validateTabs g e (element ''Tabs'' [] [example_bar [''a''], example_pages [''b'']] 1)
     = Inr [error_at (Some \<lparr>line = 1, column = 1, offset = 0\<rparr>) (missingPageItemReason ''a''),
            error_at (Some \<lparr>line = 1, column = 1, offset = 0\<rparr>) (missingBarItemReason ''b'')]"
    using validateTabs_example [of g e "[''a'']" "[''b'']"] tabsVisitor_example [of g e "[''a'']" "[''b'']" "[]"]
    by (simp add: example_tabs_def new_Set_def set_add_def difference_def getDuplicateIdAttributes_def map_get_def)
next
  show "validateTabs g e
       (element ''Tabs'' [] [example_bar [''a''], example_bar [''c''], example_pages [''b'']] 1)
     = Inl TypeError"
    by (rule validateTabs_root_excess [where cs = "[example_bar [''a''], example_bar [''c''], example_pages [''b'']]"])
       (simp_all add: example_sel example_tabs_parts)
qed

text \<open>
  Claim C2. On a wrapper whose bar items have the ids x, x, y and whose page items have
  the ids x, y, \<open>validateTabs\<close> returns exactly one duplicate-id diagnostic, for x among
  the bar items, at the start of the wrapper. With a second \<^verbatim>\<open>TabsPages\<close> child added,
  the wrapper still has both collections and the id x is still duplicated, and
  \<open>validateTabs\<close> throws a \<^verbatim>\<open>TypeError\<close> at line 70: no duplicate-id diagnostic is
  returned.
\<close>

theorem tabs_duplicates_lost_with_repeated_pages:
  "validateTabs g e (element ''Tabs'' [] [example_bar [''x'', ''x'', ''y''], example_pages [''x'', ''y'']] 1)
     = Inr [error_at (Some \<lparr>line = 1, column = 1, offset = 0\<rparr>) (dupeBarItemReason ''x'')]
   \<and> validateTabs g e
       (element ''Tabs'' []
          [example_bar [''x'', ''x'', ''y''], example_pages [''x'', ''y''], example_pages []] 1)
     = Inl TypeError"
proof
  show "validateTabs g e (element ''Tabs'' [] [example_bar [''x'', ''x'', ''y''], example_pages [''x'', ''y'']] 1)
     = Inr [error_at (Some \<lparr>line = 1, column = 1, offset = 0\<rparr>) (dupeBarItemReason ''x'')]"
    using validateTabs_example [of g e "[''x'', ''x'', ''y'']" "[''x'', ''y'']"]
      tabsVisitor_example [of g e "[''x'', ''x'', ''y'']" "[''x'', ''y'']" "[]"]
    by (simp add: example_tabs_def new_Set_def set_add_def difference_def getDuplicateIdAttributes_def map_get_def)
next
  show "validateTabs g e
       (element ''Tabs'' []
          [example_bar [''x'', ''x'', ''y''], example_pages [''x'', ''y''], example_pages []] 1)
     = Inl TypeError"
    by (rule validateTabs_root_excess
          [where cs = "[example_bar [''x'', ''x'', ''y''], example_pages [''x'', ''y''], example_pages []]"])
       (simp_all add: example_sel example_tabs_parts)
qed

text \<open>
  Claim C3. On a wrapper without a \<^verbatim>\<open>TabsBar\<close> and with one \<^verbatim>\<open>TabsPages\<close> child,
  \<open>validateTabs\<close> returns exactly one diagnostic, "No TabsBar found", at the start of the
  wrapper, and no item diagnostic. On a wrapper without a \<^verbatim>\<open>TabsBar\<close> and with two
  \<^verbatim>\<open>TabsPages\<close> children, the \<^verbatim>\<open>TabsBar\<close> is as absent as before, and \<open>validateTabs\<close>
  throws a \<^verbatim>\<open>TypeError\<close> at line 70, before line 81 is reached: the diagnostic that names
  the missing collection is not returned.
\<close>

theorem tabs_missing_bar_lost_with_repeated_pages:
  "validateTabs g e (element ''Tabs'' [] [example_pages [''a'']] 1)
     = Inr [error_at (Some \<lparr>line = 1, column = 1, offset = 0\<rparr>) noTabsBarReason]
   \<and> validateTabs g e (element ''Tabs'' [] [example_pages [''a''], example_pages [''b'']] 1)
     = Inl TypeError"
proof
  let ?cs = "[example_pages [''a'']]"
  let ?t = "element ''Tabs'' [] ?cs 1"
  have root: "validateTabs g e ?t = tabsVisitor g e ?t []"
  proof (rule validateTabs_root)
    show "name ?t = Some ''Tabs''" by (simp add: example_sel)
    fix n assume "n \<in> set (preorder_all (childNodes ?t))"
    then show "name n \<noteq> Some ''Tabs''"
      using example_no_tabs by (auto simp: childNodes_def example_sel)
  qed
  have h1: "children ?t = Some ?cs" by (simp add: example_sel)
  have h2: "\<forall>c\<in>set ?cs.
      name c \<noteq> Some ''TabsBar'' \<and> name c \<noteq> Some ''TabsPages'' \<and> \<not> e c \<longrightarrow> position c \<noteq> None"
    by (simp add: example_tabs_parts)
  have h3: "position ?t = Some \<lparr>start = \<lparr>line = 1, column = 1, offset = 0\<rparr>\<rparr>"
    by (simp add: example_sel at_line_def)
  have h4: "length (filter (\<lambda>child. name child = Some ''TabsBar'') ?cs) \<le> 1" by simp
  have h5: "length (filter (\<lambda>child. name child = Some ''TabsPages'') ?cs) \<le> 1" by simp
  have h6: "filter (\<lambda>child. name child = Some ''TabsBar'') ?cs = []
       \<or> filter (\<lambda>child. name child = Some ''TabsPages'') ?cs = []"
    by (simp add: example_tabs_parts)
  show "validateTabs g e ?t = Inr [error_at (Some \<lparr>line = 1, column = 1, offset = 0\<rparr>) noTabsBarReason]"
    unfolding root
    using tabsVisitor_absent [OF h1 h2 h3 h4 h5 h6, of g "[]"]
    by (simp add: example_tabs_parts)
next
  show "validateTabs g e (element ''Tabs'' [] [example_pages [''a''], example_pages [''b'']] 1)
     = Inl TypeError"
    by (rule validateTabs_root_excess [where cs = "[example_pages [''a''], example_pages [''b'']]"])
       (simp_all add: example_sel example_tabs_parts)
qed

text \<open>
  Claim C6. On a wrapper with a paragraph, an empty paragraph, a \<^verbatim>\<open>Note\<close> element, one
  \<^verbatim>\<open>TabsBar\<close> and one \<^verbatim>\<open>TabsPages\<close>, \<open>validateTabs\<close> returns exactly one diagnostic for
  the paragraph and one for the \<^verbatim>\<open>Note\<close>, each at the start of that child, and none for
  the empty paragraph. With a second \<^verbatim>\<open>TabsBar\<close> child added, the two diagnostics are
  pushed at lines 45 to 54 as before and then lost: line 62 throws a \<^verbatim>\<open>TypeError\<close>, and
  \<open>validateTabs\<close> returns nothing.
\<close>

theorem tabs_child_diagnostics_lost_with_repeated_bar:
  "validateTabs (\<lambda>_. ''Some text'') (\<lambda>n. n = prose 3)
     (element ''Tabs'' []
        [prose 2, prose 3, element ''Note'' [] [] 4, example_bar [''a''], example_pages [''a'']] 1)
     = Inr [error_at (Some \<lparr>line = 2, column = 1, offset = 0\<rparr>)
              (tabsChildReason (\<lambda>_. ''Some text'') (prose 2)),
            error_at (Some \<lparr>line = 4, column = 1, offset = 0\<rparr>)
              (tabsChildReason (\<lambda>_. ''Some text'') (element ''Note'' [] [] 4))]
   \<and> validateTabs (\<lambda>_. ''Some text'') (\<lambda>n. n = prose 3)
     (element ''Tabs'' []
        [prose 2, prose 3, element ''Note'' [] [] 4, example_bar [''a''], example_bar [''a''],
         example_pages [''a'']] 1)
     = Inl TypeError"
proof
  let ?g = "\<lambda>_::node. ''Some text''" and ?e = "\<lambda>n. n = prose 3"
  let ?cs = "[prose 2, prose 3, element ''Note'' [] [] 4, example_bar [''a''], example_pages [''a'']]"
  let ?t = "element ''Tabs'' [] ?cs 1"
  have root: "validateTabs ?g ?e ?t = tabsVisitor ?g ?e ?t []"
  proof (rule validateTabs_root)
    show "name ?t = Some ''Tabs''" by (simp add: example_sel)
    fix n assume "n \<in> set (preorder_all (childNodes ?t))"
    then show "name n \<noteq> Some ''Tabs''"
      using example_no_tabs by (auto simp: childNodes_def example_sel prose_def element_def)
  qed
  have h1: "children ?t = Some ?cs" by (simp add: example_sel)
  have h2: "\<forall>c\<in>set ?cs.
      name c \<noteq> Some ''TabsBar'' \<and> name c \<noteq> Some ''TabsPages'' \<and> \<not> ?e c \<longrightarrow> position c \<noteq> None"
    by (simp add: example_sel example_tabs_parts prose_def at_line_def)
  have h3: "filter (\<lambda>child. name child = Some ''TabsBar'') ?cs = [example_bar [''a'']]"
    by (simp add: example_tabs_parts example_sel prose_def)
  have h4: "filter (\<lambda>child. name child = Some ''TabsPages'') ?cs = [example_pages [''a'']]"
    by (simp add: example_tabs_parts example_sel prose_def)
  have h5: "children (example_bar [''a'']) = Some (map (\<lambda>i. element ''TabsBarItem'' [Attribute ''id'' i] [] 3) [''a''])"
    by (simp add: example_bar_def example_sel)
  have h6: "children (example_pages [''a'']) = Some (map (\<lambda>i. element ''TabsPageItem'' [Attribute ''id'' i] [] 5) [''a''])"
    by (simp add: example_pages_def example_sel)
  have nonTab: "filter (\<lambda>child. name child \<noteq> Some ''TabsBar'' \<and> name child \<noteq> Some ''TabsPages''
        \<and> \<not> ?e child) ?cs = [prose 2, element ''Note'' [] [] 4]"
    by (simp add: example_sel prose_def example_tabs_parts element_def at_line_def)
  have pos: "map_option start (position (prose 2)) = Some \<lparr>line = 2, column = 1, offset = 0\<rparr>"
    "map_option start (position (element ''Note'' [] [] 4)) = Some \<lparr>line = 4, column = 1, offset = 0\<rparr>"
    by (simp_all add: example_sel prose_def at_line_def)
  show "validateTabs ?g ?e ?t
     = Inr [error_at (Some \<lparr>line = 2, column = 1, offset = 0\<rparr>) (tabsChildReason ?g (prose 2)),
            error_at (Some \<lparr>line = 4, column = 1, offset = 0\<rparr>)
              (tabsChildReason ?g (element ''Note'' [] [] 4))]"
    using tabsVisitor_both [OF h1 h2 h3 h4 h5 h6 example_tabs_parts(5,6), of ?g "[]"]
    unfolding nonTab root
    by (simp add: pos new_Set_def set_add_def difference_def getDuplicateIdAttributes_def map_get_def)
next
  show "validateTabs (\<lambda>_. ''Some text'') (\<lambda>n. n = prose 3)
     (element ''Tabs'' []
        [prose 2, prose 3, element ''Note'' [] [] 4, example_bar [''a''], example_bar [''a''],
         example_pages [''a'']] 1)
     = Inl TypeError"
    by (rule validateTabs_root_excess
          [where cs = "[prose 2, prose 3, element ''Note'' [] [] 4, example_bar [''a''], example_bar [''a''],
         example_pages [''a'']]"])
       (simp_all add: example_sel example_tabs_parts prose_def)
qed

text \<open>
  Claim C10. An item that has an attribute array with no attribute named \<^verbatim>\<open>id\<close>
  contributes nothing: removing every such \<^verbatim>\<open>TabsBarItem\<close> from the \<^verbatim>\<open>TabsBar\<close>
  children and every such \<^verbatim>\<open>TabsPageItem\<close> from the \<^verbatim>\<open>TabsPages\<close> children of a wrapper
  leaves the result of the visitor unchanged, for every wrapper and whatever was collected
  before.
\<close>

theorem idless_items_ignored:
  "tabsVisitor g e (withoutIdless tabs) errors = tabsVisitor g e tabs errors"
proof (cases tabs)
  case (Node t n cs a p)
  show ?thesis
  proof (cases cs)
    case None
    then show ?thesis by (simp add: Node tabsVisitor_def)
  next
    case (Some cs')
    define f where "f = (\<lambda>child.
                  if name child = Some ''TabsBar'' then withoutIdlessItems ''TabsBarItem'' child
                  else if name child = Some ''TabsPages'' then withoutIdlessItems ''TabsPageItem'' child
                  else child)"
    have nt: "filter (\<lambda>child. name child \<noteq> Some ''TabsBar'' \<and> name child \<noteq> Some ''TabsPages'' \<and> \<not> e child) (map f cs')
        = filter (\<lambda>child. name child \<noteq> Some ''TabsBar'' \<and> name child \<noteq> Some ''TabsPages'' \<and> \<not> e child) cs'"
      by (induction cs') (auto simp: f_def)
    have bars: "filter (\<lambda>child. name child = Some ''TabsBar'') (map f cs')
        = map (withoutIdlessItems ''TabsBarItem'') (filter (\<lambda>child. name child = Some ''TabsBar'') cs')"
      by (induction cs') (auto simp: f_def)
    have pagess: "filter (\<lambda>child. name child = Some ''TabsPages'') (map f cs')
        = map (withoutIdlessItems ''TabsPageItem'') (filter (\<lambda>child. name child = Some ''TabsPages'') cs')"
      by (induction cs') (auto simp: f_def)
    have w: "withoutIdless (Node t n (Some cs') a p) = Node t n (Some (map f cs')) a p"
      by (simp add: f_def)
    have pair: "pairItems (Node t n (Some (map f cs')) a p) (withoutIdlessItems ''TabsBarItem'' bar)
          (withoutIdlessItems ''TabsPageItem'' pages) errs
        = pairItems (Node t n (Some cs') a p) bar pages errs" for bar pages errs
      by (rule pairItems_idless) simp
    have sel: "children (Node t n (Some (map f cs')) a p) = Some (map f cs')"
      "children (Node t n (Some cs') a p) = Some cs'"
      "position (Node t n (Some (map f cs')) a p) = position (Node t n (Some cs') a p)"
      by simp_all
    let ?bars = "filter (\<lambda>child. name child = Some ''TabsBar'') cs'"
    let ?pagess = "filter (\<lambda>child. name child = Some ''TabsPages'') cs'"
    have rest: "(case (first (map (withoutIdlessItems ''TabsBarItem'') ?bars),
                      first (map (withoutIdlessItems ''TabsPageItem'') ?pagess)) of
               (Some bar, Some pages) \<Rightarrow> pairItems (Node t n (Some (map f cs')) a p) bar pages errs
             | _ \<Rightarrow> Inr errs)
        = (case (first ?bars, first ?pagess) of
               (Some bar, Some pages) \<Rightarrow> pairItems (Node t n (Some cs') a p) bar pages errs
             | _ \<Rightarrow> Inr errs)" for errs
      by (cases ?bars; cases ?pagess) (simp_all add: pair)
    have nb: "(first (map (withoutIdlessItems ''TabsBarItem'') ?bars) = None) = (first ?bars = None)"
      by (cases ?bars) simp_all
    have np: "(first (map (withoutIdlessItems ''TabsPageItem'') ?pagess) = None) = (first ?pagess = None)"
      by (cases ?pagess) simp_all
    show ?thesis
      unfolding Node Some w tabsVisitor_def Let_def sel option.case nt bars pagess length_map rest nb np
      by (rule refl)
  qed
qed

theorem idless_items_ignored_witness:
  "tabsVisitor (\<lambda>_. []) (\<lambda>_. False)
     (element ''Tabs'' []
        [element ''TabsBar'' []
           [element ''TabsBarItem'' [Attribute ''id'' ''a''] [] 3,
            element ''TabsBarItem'' [Attribute ''label'' ''b''] [] 4] 2,
         element ''TabsPages'' []
           [element ''TabsPageItem'' [] [] 6,
            element ''TabsPageItem'' [Attribute ''id'' ''a''] [] 7] 5] 1) []
   = Inr []"
proof -
  let ?t = "element ''Tabs'' []
        [element ''TabsBar'' []
           [element ''TabsBarItem'' [Attribute ''id'' ''a''] [] 3,
            element ''TabsBarItem'' [Attribute ''label'' ''b''] [] 4] 2,
         element ''TabsPages'' []
           [element ''TabsPageItem'' [] [] 6,
            element ''TabsPageItem'' [Attribute ''id'' ''a''] [] 7] 5] 1"
  have "withoutIdless ?t = element ''Tabs'' []
        [element ''TabsBar'' [] [element ''TabsBarItem'' [Attribute ''id'' ''a''] [] 3] 2,
         element ''TabsPages'' [] [element ''TabsPageItem'' [Attribute ''id'' ''a''] [] 7] 5] 1"
    by (simp add: element_def lacksId_def)
  then have 1: "tabsVisitor (\<lambda>_. []) (\<lambda>_. False) ?t []
      = tabsVisitor (\<lambda>_. []) (\<lambda>_. False) (element ''Tabs'' []
        [element ''TabsBar'' [] [element ''TabsBarItem'' [Attribute ''id'' ''a''] [] 3] 2,
         element ''TabsPages'' [] [element ''TabsPageItem'' [Attribute ''id'' ''a''] [] 7] 5] 1) []"
    using idless_items_ignored [of "\<lambda>_. []" "\<lambda>_. False" ?t "[]"] by simp
  have 2: "tabsVisitor (\<lambda>_. []) (\<lambda>_. False) (element ''Tabs'' []
        [element ''TabsBar'' [] [element ''TabsBarItem'' [Attribute ''id'' ''a''] [] 3] 2,
         element ''TabsPages'' [] [element ''TabsPageItem'' [Attribute ''id'' ''a''] [] 7] 5] 1) [] = Inr []"
    by (simp add: tabsVisitor_def pairItems_def idAttrs_def andThen_def example_sel new_Map_def keys_def
        new_Set_def set_add_def difference_def getDuplicateIdAttributes_def map_get_def)
  show ?thesis using 1 2 by simp
qed

text \<open>
  Claim C4. The source, at lines 61 to 76, reads \<^verbatim>\<open>position.start\<close> of the filtered array
  instead of one of its elements. So for every tree that holds a Tabs wrapper with more
  than one \<^verbatim>\<open>TabsBar\<close> child or more than one \<^verbatim>\<open>TabsPages\<close> child, \<open>validateTabs\<close>
  throws a \<^verbatim>\<open>TypeError\<close>: no "can only have one" diagnostic is returned, and no later
  check runs.
\<close>

theorem tabs_repeated_collection_throws:
  assumes "wrapper \<in> set (preorder mdxAST)"
    and "name wrapper = Some ''Tabs''"
    and "children wrapper = Some cs"
    and "length (filter (\<lambda>child. name child = Some ''TabsBar'') cs) > 1
       \<or> length (filter (\<lambda>child. name child = Some ''TabsPages'') cs) > 1"
  shows "validateTabs g e mdxAST = Inl TypeError"
proof -
  have "tabsVisitor g e wrapper s = Inl TypeError" for s
    using assms(3,4) by (intro tabsVisitor_excess) simp
  then show ?thesis
    unfolding validateTabs_def
    using visit_throws_aux(1) [of "tabsVisitor g e" wrapper "\<lambda>node. name node = Some ''Tabs''" mdxAST "[]"]
      assms(1,2) by simp
qed

theorem tabs_repeated_collection_throws_witness:
  "validateTabs (\<lambda>_. []) (\<lambda>_. False)
     (element ''Tabs'' [] [example_bar [''a''], example_bar [''b''], example_pages [''a'', ''b'']] 1)
   = Inl TypeError"
proof -
  let ?cs = "[example_bar [''a''], example_bar [''b''], example_pages [''a'', ''b'']]"
  let ?t = "element ''Tabs'' [] ?cs 1"
  have h1: "?t \<in> set (preorder ?t)" by (simp add: element_def)
  have h2: "name ?t = Some ''Tabs''" by (simp add: example_sel)
  have h3: "children ?t = Some ?cs" by (simp add: example_sel)
  have h4: "length (filter (\<lambda>child. name child = Some ''TabsBar'') ?cs) > 1
       \<or> length (filter (\<lambda>child. name child = Some ''TabsPages'') ?cs) > 1"
    by (simp add: example_tabs_parts)
  show ?thesis by (rule tabs_repeated_collection_throws [OF h1 h2 h3 h4])
qed

section \<open>The paired-container rule\<close>

lemma steps_empty_children:
  "children node = Some [] \<Longrightarrow> stepsVisitor g node errors = Inr errors"
  by (simp add: stepsVisitor_def)

lemma stepsVisitor_absent_children:
  "children node = None \<Longrightarrow> stepsVisitor g node errors = Inl TypeError"
  by (simp add: stepsVisitor_def)




text \<open>
  Claim C7. A Steps node with an empty child array adds no diagnostic
  (\<open>steps_empty_children\<close>). A Steps node without a child array does not: line 13 yields
  \<^verbatim>\<open>undefined\<close> through the optional chaining, and line 16 calls \<^verbatim>\<open>forEach\<close> on it. So
  for every tree that holds such a node, \<open>validateSteps\<close> throws a \<^verbatim>\<open>TypeError\<close>.
\<close>

theorem steps_absent_children_throws:
  assumes "container \<in> set (preorder mdxAST)"
    and "name container = Some ''Steps''"
    and "children container = None"
  shows "validateSteps g mdxAST = Inl TypeError"
proof -
  have "stepsVisitor g container s = Inl TypeError" for s
    using assms(3) by (rule stepsVisitor_absent_children)
  then show ?thesis
    unfolding validateSteps_def
    using visit_throws_aux(1) [of "stepsVisitor g" container "\<lambda>node. name node = Some ''Steps''" mdxAST "[]"]
      assms(1,2) by simp
qed

theorem steps_absent_children_throws_witness:
  "validateSteps (\<lambda>_. []) (Node ''mdxBlockElement'' (Some ''Steps'') None (Some []) (at_line 1))
   = Inl TypeError"
proof -
  let ?t = "Node ''mdxBlockElement'' (Some ''Steps'') None (Some []) (at_line 1)"
  have h1: "?t \<in> set (preorder ?t)" by simp
  have h2: "name ?t = Some ''Steps''" by simp
  have h3: "children ?t = None" by simp
  show ?thesis by (rule steps_absent_children_throws [OF h1 h2 h3])
qed

section \<open>The node description\<close>

lemma nodeDescriptor_component:
  "type node = ''mdxBlockElement'' \<Longrightarrow> nodeDescriptor g node = ''<'' @ template (name node) @ ''>''"
  by (simp add: nodeDescriptor_def)

lemma nodeDescriptor_paragraph:
  "type node = ''paragraph'' \<Longrightarrow>
   nodeDescriptor g node =
     [CHR 0x22] @ (if 30 < length (replace (g node) (CHR 0x0A))
                   then take 30 (replace (g node) (CHR 0x0A)) @ ''...''
                   else replace (g node) (CHR 0x0A)) @ [CHR 0x22]"
  by (auto simp: nodeDescriptor_def Let_def)

lemma nodeDescriptor_other:
  "type node \<noteq> ''mdxBlockElement'' \<Longrightarrow> type node \<noteq> ''paragraph'' \<Longrightarrow> nodeDescriptor g node = type node"
  by (simp add: nodeDescriptor_def)

lemma replace_single_newline:
  "count_list str c \<le> 1 \<Longrightarrow> replace str c = filter (\<lambda>x. x \<noteq> c) str"
proof (induction str)
  case Nil
  then show ?case by simp
next
  case (Cons x xs)
  show ?case
  proof (cases "x = c")
    case True
    then have "count_list xs c = 0" using Cons.prems by simp
    then have "c \<notin> set xs" by (simp add: count_list_0_iff)
    then have "filter (\<lambda>x. x \<noteq> c) xs = xs" by (induction xs) auto
    then show ?thesis using True by simp
  next
    case False
    then show ?thesis using Cons by simp
  qed
qed

text \<open>
  Claim C8. \<open>nodeDescriptor\<close> renders a component as its name in angle brackets
  (\<open>nodeDescriptor_component\<close>), a node that is neither a component nor a paragraph as its
  type (\<open>nodeDescriptor_other\<close>), and a paragraph as its quoted text, cut to 30 characters
  and followed by three dots exactly when it was longer (\<open>nodeDescriptor_paragraph\<close>). The
  text of a paragraph loses its first newline only; with at most one newline that is all
  of them (\<open>replace_single_newline\<close>). On a paragraph whose text holds two newlines the
  second one is still in the description.
\<close>

theorem nodeDescriptor_second_newline_kept:
  "nodeDescriptor (\<lambda>_. ''a'' @ [CHR 0x0A] @ ''b'' @ [CHR 0x0A] @ ''c'') (prose 1)
   = [CHR 0x22] @ ''ab'' @ [CHR 0x0A] @ ''c'' @ [CHR 0x22]"
  by (simp add: nodeDescriptor_def prose_def)

section \<open>The registry\<close>

lemma forEach_cong_on:
  "(\<And>x s. x \<in> set xs \<Longrightarrow> f x s = f' x s) \<Longrightarrow> forEach xs f s = forEach xs f' s"
  by (induction xs arbitrary: s) (auto split: sum.splits)

lemma visit_cong_on_aux:
  fixes visitor :: "node \<Rightarrow> 's \<Rightarrow> js_error + 's"
  shows "(\<And>n s. n \<in> set (preorder t) \<Longrightarrow> visitor n s = visitor' n s) \<Longrightarrow>
      visit t test visitor s = visit t test visitor' s"
    and "(\<And>n s. n \<in> set (preorder_all ts) \<Longrightarrow> visitor n s = visitor' n s) \<Longrightarrow>
      visit_all ts test visitor s = visit_all ts test visitor' s"
proof (induction t test visitor s and ts test visitor s rule: visit_visit_all.induct)
  case (1 t n cs a p test visitor s)
  then show ?case by (cases cs) (auto split: sum.splits)
next
  case (2 test visitor s)
  then show ?case by simp
next
  case (3 c cs test visitor s)
  then show ?case by (auto split: sum.splits)
qed

lemma self_in_preorder: "t \<in> set (preorder t)"
  by (cases t) simp

lemma member_in_preorder_all: "c \<in> set ts \<Longrightarrow> c \<in> set (preorder_all ts)"
  by (induction ts) (auto simp: self_in_preorder)

lemma children_in_preorder_aux:
  "n \<in> set (preorder t) \<Longrightarrow> children n = Some cs \<Longrightarrow> set cs \<subseteq> set (preorder t)"
  "n \<in> set (preorder_all ts) \<Longrightarrow> children n = Some cs \<Longrightarrow> set cs \<subseteq> set (preorder_all ts)"
proof (induction t and ts rule: preorder_preorder_all.induct)
  case (1 t n' cs' a p)
  show ?case
  proof (cases "n = Node t n' cs' a p")
    case True
    then have "cs' = Some cs" using "1.prems"(2) by simp
    then show ?thesis by (auto simp: member_in_preorder_all)
  next
    case False
    then obtain cs'' where c: "cs' = Some cs''" and "n \<in> set (preorder_all cs'')"
      using "1.prems"(1) by (cases cs') auto
    then show ?thesis using "1.IH" "1.prems"(2) by auto
  qed
next
  case 2
  then show ?case by simp
next
  case (3 c cs')
  then show ?case by auto
qed

lemma nodeDescriptor_cong: "g n = g' n \<Longrightarrow> nodeDescriptor g n = nodeDescriptor g' n"
  by (simp add: nodeDescriptor_def)

lemma stepsVisitor_cong:
  assumes "\<And>c. c \<in> set (childNodes n) \<Longrightarrow> g c = g' c"
  shows "stepsVisitor g n s = stepsVisitor g' n s"
proof (cases "children n")
  case None
  then show ?thesis by (simp add: stepsVisitor_def)
next
  case (Some cs)
  have "g c = g' c" if "c \<in> set cs" for c
    using assms that Some by (simp add: childNodes_def)
  then have r: "stepsReason g c = stepsReason g' c" if "c \<in> set cs" for c
    using that nodeDescriptor_cong [of g c g'] by (simp add: stepsReason_def)
  show ?thesis
    unfolding stepsVisitor_def Some option.case Let_def
    by (intro forEach_cong_on) (auto simp: r split: option.splits)
qed

lemma tabsVisitor_cong:
  assumes "\<And>c. c \<in> set (childNodes n) \<Longrightarrow> g c = g' c \<and> e c = e' c"
  shows "tabsVisitor g e n s = tabsVisitor g' e' n s"
proof (cases "children n")
  case None
  then show ?thesis by (simp add: tabsVisitor_def)
next
  case (Some cs)
  have ag: "g c = g' c" "e c = e' c" if "c \<in> set cs" for c
    using assms that Some by (simp_all add: childNodes_def)
  have flt: "filter (\<lambda>child. name child \<noteq> Some ''TabsBar'' \<and> name child \<noteq> Some ''TabsPages'' \<and> \<not> e child) cs
      = filter (\<lambda>child. name child \<noteq> Some ''TabsBar'' \<and> name child \<noteq> Some ''TabsPages'' \<and> \<not> e' child) cs"
    by (intro filter_cong) (auto simp: ag)
  have r: "tabsChildReason g c = tabsChildReason g' c" if "c \<in> set cs" for c
    using that ag(1) nodeDescriptor_cong [of g c g'] by (simp add: tabsChildReason_def)
  let ?xs = "filter (\<lambda>child. name child \<noteq> Some ''TabsBar'' \<and> name child \<noteq> Some ''TabsPages'' \<and> \<not> e' child) cs"
  have each: "forEach ?xs
                 (\<lambda>child errors.
                    case position child of
                      None \<Rightarrow> Inl TypeError
                    | Some p \<Rightarrow> push (error_at (Some (start p)) (tabsChildReason g child)) errors) s
      = forEach ?xs
                 (\<lambda>child errors.
                    case position child of
                      None \<Rightarrow> Inl TypeError
                    | Some p \<Rightarrow> push (error_at (Some (start p)) (tabsChildReason g' child)) errors) s"
    by (intro forEach_cong_on) (auto simp: r split: option.splits)
  show ?thesis
    unfolding tabsVisitor_def Some option.case Let_def flt each by (rule refl)
qed

text \<open>
  A validator reads nothing but the tree and what \<^verbatim>\<open>getNodeText\<close> and
  \<^verbatim>\<open>isEmptyParagraph\<close> answer on nodes of the tree: two registries whose helpers answer
  alike on the nodes of a tree give the same results on it.
\<close>

lemma validators_read_tree_only:
  assumes "\<forall>n\<in>set (preorder mdxAST). getNodeText n = getNodeText' n \<and> isEmptyParagraph n = isEmptyParagraph' n"
  shows "map (\<lambda>validator. validator mdxAST) (validators getNodeText isEmptyParagraph)
       = map (\<lambda>validator. validator mdxAST) (validators getNodeText' isEmptyParagraph')"
proof -
  have agree: "getNodeText c = getNodeText' c \<and> isEmptyParagraph c = isEmptyParagraph' c"
    if "n \<in> set (preorder mdxAST)" and "c \<in> set (childNodes n)" for n c
  proof (cases "children n")
    case None
    then show ?thesis using that(2) by (simp add: childNodes_def)
  next
    case (Some cs)
    then have "c \<in> set (preorder mdxAST)"
      using children_in_preorder_aux(1) [OF that(1) Some] that(2) by (auto simp: childNodes_def)
    then show ?thesis using assms by blast
  qed
  have steps: "validateSteps getNodeText mdxAST = validateSteps getNodeText' mdxAST"
    unfolding validateSteps_def
    by (intro visit_cong_on_aux(1) stepsVisitor_cong) (simp add: agree)
  have tabs: "validateTabs getNodeText isEmptyParagraph mdxAST = validateTabs getNodeText' isEmptyParagraph' mdxAST"
    unfolding validateTabs_def
    by (intro visit_cong_on_aux(1) tabsVisitor_cong) (simp add: agree)
  show ?thesis by (simp add: validators_def steps tabs)
qed

end
